theory Spec2Isabelle
  imports Complex_Main "HOL-Library.Word"
begin

section \<open>Exceptions and by-reference results\<close>

text \<open>
  The functions of \<^verbatim>\<open>ms_funcs.cc\<close> report failure by throwing
  \<^verbatim>\<open>std::length_error\<close> or \<^verbatim>\<open>std::runtime_error\<close>; the exception carries
  the message of the source. Functions that fill a destination passed by reference are
  modelled with an outcome that records the destination as the caller sees it afterwards,
  both when the call returns and when it does not.

  An \<^verbatim>\<open>int\<close> has 32 bits. Where an \<^verbatim>\<open>int\<close> computation of the source leaves the
  range of the type, or a write leaves the array it indexes, C++ defines no result; the
  model stops there with a \<open>fault\<close>. In an outcome a fault stands among the exceptions,
  as \<open>undefined_behaviour\<close>: the call has not returned what it was to return.
\<close>

datatype fault = int_overflow | index_out_of_range

definition INT_MAX :: nat where
  "INT_MAX = 2147483647"

datatype exn =
    length_error string
  | runtime_error string
  | table_error
  | undefined_behaviour fault

datatype 'a outcome = Returned 'a | Raised exn 'a

fun dest_of :: "'a outcome \<Rightarrow> 'a" where
  "dest_of (Returned d) = d"
| "dest_of (Raised e d) = d"

fun raised :: "'a outcome \<Rightarrow> exn option" where
  "raised (Returned d) = None"
| "raised (Raised e d) = Some e"

section \<open>Flag packing: boolArray2charVector and charVector2boolArray\<close>

text \<open>
  A \<^verbatim>\<open>char\<close> is one byte. A casacore \<^verbatim>\<open>Array<Bool>\<close> is modelled by the
  list of its elements in the order its iterator visits them; \<^verbatim>\<open>shape().product()\<close>
  is the number of those elements, and neither function changes the shape. The sizes are
  compared as 64-bit numbers. The size check of both functions makes every index \<open>i\<close>
  used by the loop smaller than the size of the vector, so the unchecked
  \<^verbatim>\<open>charVec[i]\<close> stays in range. The index is the \<^verbatim>\<open>int i\<close> of the source: it
  counts up from 0, and \<^verbatim>\<open>i++\<close> at \<open>i = INT_MAX\<close>, reached at element
  \<open>2^31 - 1\<close> (counting from 0), overflows.
\<close>

type_synonym cchar = "8 word"

definition mismatch_msg :: string where
  "mismatch_msg = ''array length mismatch in ms_funcs::boolArray2charVector()''"

text \<open>The loop of \<^verbatim>\<open>boolArray2charVector\<close>: the iterator walks the remaining elements,
  \<open>i\<close> is the running index, each step is \<^verbatim>\<open>charVec[i++] = static_cast<char>(*iter)\<close>.\<close>

fun b2c_loop :: "bool list \<Rightarrow> nat \<Rightarrow> cchar list \<Rightarrow> cchar list outcome" where
  "b2c_loop [] i charVec = Returned charVec"
| "b2c_loop (b # rest) i charVec =
     (if INT_MAX \<le> i then Raised (undefined_behaviour int_overflow) charVec
      else b2c_loop rest (i + 1) (charVec[i := of_bool b]))"

definition boolArray2charVector :: "bool list \<Rightarrow> cchar list \<Rightarrow> cchar list outcome" where
  "boolArray2charVector boolArr charVec =
     (if length boolArr \<noteq> length charVec
      then Raised (length_error mismatch_msg) charVec
      else b2c_loop boolArr 0 charVec)"

text \<open>The loop of \<^verbatim>\<open>charVector2boolArray\<close>: each step is
  \<^verbatim>\<open>*iter = static_cast<Bool>(charVec[i++])\<close>, which is true for every byte other
  than 0. \<open>written\<close> holds the elements already overwritten, in order; the elements the
  iterator has not reached keep their values.\<close>

fun c2b_loop :: "cchar list \<Rightarrow> bool list \<Rightarrow> nat \<Rightarrow> bool list \<Rightarrow> bool list outcome" where
  "c2b_loop charVec [] i written = Returned written"
| "c2b_loop charVec (b # rest) i written =
     (if INT_MAX \<le> i then Raised (undefined_behaviour int_overflow) (written @ b # rest)
      else c2b_loop charVec rest (i + 1) (written @ [charVec ! i \<noteq> 0]))"

definition charVector2boolArray :: "cchar list \<Rightarrow> bool list \<Rightarrow> bool list outcome" where
  "charVector2boolArray charVec boolArr =
     (if length boolArr \<noteq> length charVec
      then Raised (length_error mismatch_msg) boolArr
      else c2b_loop charVec boolArr 0 [])"

section \<open>Geodetic frame: radians and seaLevel\<close>






section \<open>Matrices of positions\<close>

text \<open>
  A \<^verbatim>\<open>Matrix<Double>\<close> with three rows is modelled by the list of its columns, each
  a triple of reals: column \<open>i\<close> of \<^verbatim>\<open>antPos\<close> is \<open>antPos ! i\<close>, and
  \<^verbatim>\<open>ncolumn()\<close> is the length of the list. A matrix held in memory has fewer than
  \<open>2^31\<close> columns, so the \<^verbatim>\<open>int\<close> that receives \<^verbatim>\<open>ncolumn()\<close> holds the count,
  and the loop counters, which run from 0 up to a count, are natural numbers.
  \<^verbatim>\<open>Matrix<Double> m(3, n)\<close> allocates \<open>n\<close> columns whose contents the source never
  reads before writing them; the model takes them from the parameter \<open>junk\<close>.
  casacore does not check the index of \<^verbatim>\<open>m(r, c)\<close>: a write outside the matrix,
  like the overflow of an \<^verbatim>\<open>int\<close> computation, has no defined result in C++, and the
  model stops there with a \<open>fault\<close>.
\<close>

type_synonym vec3 = "real \<times> real \<times> real"

definition Matrix3 :: "(nat \<Rightarrow> vec3) \<Rightarrow> nat \<Rightarrow> vec3 list" where
  "Matrix3 junk n = map junk [0..<n]"

definition put_column :: "vec3 list \<Rightarrow> nat \<Rightarrow> vec3 \<Rightarrow> fault + vec3 list" where
  "put_column m c v = (if c < length m then Inr (m[c := v]) else Inl index_out_of_range)"

section \<open>Baselines: zenithUVWs\<close>

text \<open>The three assignments of the loop body: row by row, column \<open>i\<close> minus column \<open>j\<close>.\<close>

fun column_diff :: "vec3 \<Rightarrow> vec3 \<Rightarrow> vec3" where
  "column_diff (x0, x1, x2) (y0, y1, y2) = (x0 - y0, x1 - y1, x2 - y2)"

text \<open>The inner loop \<^verbatim>\<open>for (int j=i; j<nAnt; j++)\<close>, entered with the current \<open>j\<close>,
  the matrix \<open>uvw\<close> and the column counter \<open>c\<close>.\<close>

function uvw_inner ::
  "vec3 list \<Rightarrow> nat \<Rightarrow> nat \<Rightarrow> nat \<Rightarrow> vec3 list \<times> nat \<Rightarrow> fault + vec3 list \<times> nat" where
  "uvw_inner antPos nAnt i j (uvw, c) =
     (if j < nAnt then
        (case put_column uvw c (column_diff (antPos ! i) (antPos ! j)) of
           Inl f \<Rightarrow> Inl f
         | Inr uvw' \<Rightarrow> uvw_inner antPos nAnt i (j + 1) (uvw', c + 1))
      else Inr (uvw, c))"
  by pat_completeness auto
termination
  by (relation "measure (\<lambda>(antPos, nAnt, i, j, s). nAnt - j)") auto

declare uvw_inner.simps [simp del]

text \<open>The outer loop \<^verbatim>\<open>for (int i=0; i<nAnt; i++)\<close>.\<close>

function uvw_outer ::
  "vec3 list \<Rightarrow> nat \<Rightarrow> nat \<Rightarrow> vec3 list \<times> nat \<Rightarrow> fault + vec3 list \<times> nat" where
  "uvw_outer antPos nAnt i (uvw, c) =
     (if i < nAnt then
        (case uvw_inner antPos nAnt i i (uvw, c) of
           Inl f \<Rightarrow> Inl f
         | Inr s \<Rightarrow> uvw_outer antPos nAnt (i + 1) s)
      else Inr (uvw, c))"
  by pat_completeness auto
termination
  by (relation "measure (\<lambda>(antPos, nAnt, i, s). nAnt - i)") auto

declare uvw_outer.simps [simp del]

text \<open>\<^verbatim>\<open>(nAnt+1)*nAnt/2\<close> is computed in \<^verbatim>\<open>int\<close> (32 bits): the product is formed
  first and must fit.\<close>

definition zenithUVWs :: "(nat \<Rightarrow> vec3) \<Rightarrow> vec3 list \<Rightarrow> fault + vec3 list" where
  "zenithUVWs junk antPos =
     (let nAnt = length antPos in
      if (nAnt + 1) * nAnt > INT_MAX then Inl int_overflow
      else
        (case uvw_outer antPos nAnt 0 (Matrix3 junk ((nAnt + 1) * nAnt div 2), 0) of
           Inl f \<Rightarrow> Inl f
         | Inr (uvw, c) \<Rightarrow> Inr uvw))"

text \<open>The position of the pair \<open>(i, j)\<close>, \<open>i \<le> j\<close>, in the nested-loop order of \<open>n\<close>
  antennas: the rows before row \<open>i\<close> hold \<open>n, n - 1, \<dots>, n - i + 1\<close> pairs.\<close>

definition pair_index :: "nat \<Rightarrow> nat \<Rightarrow> nat \<Rightarrow> nat" where
  "pair_index n i j = (\<Sum>k = 0..<i. n - k) + (j - i)"

text \<open>Initial contents for a matrix whose constructor zeroes it.\<close>

definition zeroed :: "nat \<Rightarrow> vec3" where
  "zeroed c = (0, 0, 0)"

section \<open>Geocentric antenna positions: itrfAnts\<close>

text \<open>
  \<open>itrfAnts\<close> calls casacore for the rotation matrices, the matrix-vector product, the
  length and the angles of a position vector, and the conversion from WGS84 to ITRF.
  None of these is code of this repository; the model takes them as the fields of a record
  and says nothing about what they compute. The type \<open>'m\<close> stands for a
  \<^verbatim>\<open>Matrix<Double>\<close> holding a rotation, \<open>'a\<close> for the pair of angles of an
  \<^verbatim>\<open>MVPosition\<close>; \<open>wgs2itrf\<close> is the conversion machine applied to an
  \<^verbatim>\<open>MPosition\<close>, with the result read as a vector in metres. The source catches no
  exception of these calls and checks no result, so the operations are total functions here.
\<close>

datatype position_ref = ITRF | WGS84








section \<open>Calibration table: readCalTable\<close>

text \<open>
  The calibration table is a casacore table; the model holds what the function reads from
  it. A row has the integer \<^verbatim>\<open>ANTENNA1\<close> and two array cells, \<^verbatim>\<open>CPARAM\<close>
  (complex gains) and \<^verbatim>\<open>FLAG\<close> (booleans); a cell is its shape and its elements
  in storage order. The table is taken as opened: what \<^verbatim>\<open>Table cal(calName, Table::Old)\<close>
  does with a name that is no table is the store's business. The element type \<open>'c\<close> stands
  for \<^verbatim>\<open>std::complex<float>\<close>; the function only moves such values. The row count
  and the number of gains are \<^verbatim>\<open>int\<close> in the source and natural numbers here: a
  column held in memory is taken to have fewer than \<open>2^31\<close> elements, and the tables the
  properties below speak of are within that range.
\<close>

record 'a cell =
  shape :: "nat list"
  elems :: "'a list"

record 'c cal_row =
  ANTENNA1 :: int
  CPARAM :: "'c cell"
  FLAG :: "bool cell"

type_synonym 'c cal_table = "'c cal_row list"

text \<open>
  The calls into casacore, as the library documents them. \<^verbatim>\<open>shape(0)\<close> is the shape
  of the cell in row 0, which must exist. \<^verbatim>\<open>getColumn\<close> delivers the cells of all rows
  one after the other, the row being the last axis; it throws unless every cell has the same
  shape, and, when it is given the array to fill, unless that array has the shape of a cell
  extended by the number of rows. Every exception of the library is \<open>table_error\<close> here.
\<close>

definition shape0 :: "'a cell list \<Rightarrow> exn + nat list" where
  "shape0 col = (case col of [] \<Rightarrow> Inl table_error | c # _ \<Rightarrow> Inr (shape c))"

definition getColumn_into :: "nat list \<Rightarrow> 'a cell list \<Rightarrow> exn + 'a list" where
  "getColumn_into arr_shape col =
     (if \<forall>c \<in> set col. shape c @ [length col] = arr_shape
      then Inr (concat (map elems col)) else Inl table_error)"

definition getColumn :: "'a cell list \<Rightarrow> exn + 'a list" where
  "getColumn col =
     (if \<forall>c \<in> set col. shape c = shape (hd col)
      then Inr (concat (map elems col)) else Inl table_error)"

text \<open>\<^verbatim>\<open>std::vector::resize\<close>: the first \<open>n\<close> elements stay, new ones are
  value-initialised.\<close>

definition resize :: "nat \<Rightarrow> 'a::zero list \<Rightarrow> 'a list" where
  "resize n v = take n v @ replicate (n - length v) 0"

definition one_row_msg :: string where
  "one_row_msg = ''Cal table not expected shape (one row per ant)''"

text \<open>The final loop \<^verbatim>\<open>for (int i=0; i<nrow; i++)\<close> over the rows still to visit, with
  the index \<open>i\<close> of the first of them: \<open>Some\<close> exception when a row is not at its
  antenna's index.\<close>

fun antenna1_loop :: "'c cal_row list \<Rightarrow> nat \<Rightarrow> exn option" where
  "antenna1_loop [] i = None"
| "antenna1_loop (r # rest) i =
     (if ANTENNA1 r \<noteq> int i then Some (length_error one_row_msg)
      else antenna1_loop rest (i + 1))"

text \<open>
  The function, statement by statement. The outcome carries the two vectors the caller
  passed by reference, \<open>gain\<close> and \<open>flag\<close>, as they are when the function returns or
  throws. \<open>arr_gain\<close> shares the storage of \<open>gain\<close>, so what \<open>getColumn\<close> reads into it
  is the new content of \<open>gain\<close>; where \<open>getColumn\<close> throws, the model leaves the resized
  vector as it was.
\<close>

definition readCalTable ::
  "'c::zero cal_table \<Rightarrow> 'c list \<times> cchar list \<Rightarrow> ('c list \<times> cchar list) outcome" where
  "readCalTable cal out =
     (case out of (gain, flag) \<Rightarrow>
      (let nrow = length cal in
       (case shape0 (map CPARAM cal) of
          Inl e \<Rightarrow> Raised e (gain, flag)
        | Inr cell_shape \<Rightarrow>
           (let cal_shape = cell_shape @ [nrow];
                num_gains = prod_list cal_shape;
                gain = resize num_gains gain;
                flag = resize num_gains flag
            in (case getColumn_into cal_shape (map CPARAM cal) of
                  Inl e \<Rightarrow> Raised e (gain, flag)
                | Inr arr_gain \<Rightarrow>
                   (let gain = arr_gain in
                    (case getColumn (map FLAG cal) of
                       Inl e \<Rightarrow> Raised e (gain, flag)
                     | Inr arr_flag \<Rightarrow>
                        (case boolArray2charVector arr_flag flag of
                           Raised e flag \<Rightarrow> Raised e (gain, flag)
                         | Returned flag \<Rightarrow>
                            (case antenna1_loop cal 0 of
                               Some e \<Rightarrow> Raised e (gain, flag)
                             | None \<Rightarrow> Returned (gain, flag))))))))))"

text \<open>A table the library reads without complaint and whose flags fit the gains: every
  cell holds as many elements as its shape says, every row has the \<^verbatim>\<open>CPARAM\<close> shape and
  the \<^verbatim>\<open>FLAG\<close> shape of row 0, the two shapes have the same number of elements, and
  the number of gains of the whole column is within the range of the \<^verbatim>\<open>int\<close> that
  holds it.\<close>

definition regular_table :: "'c cal_table \<Rightarrow> bool" where
  "regular_table cal =
     (cal \<noteq> [] \<and>
      list_all (\<lambda>r. shape (CPARAM r) = shape (CPARAM (hd cal))
                  \<and> shape (FLAG r) = shape (FLAG (hd cal))
                  \<and> length (elems (CPARAM r)) = prod_list (shape (CPARAM r))
                  \<and> length (elems (FLAG r)) = prod_list (shape (FLAG r))) cal
      \<and> prod_list (shape (FLAG (hd cal))) = prod_list (shape (CPARAM (hd cal)))
      \<and> prod_list (shape (CPARAM (hd cal)) @ [length cal]) \<le> INT_MAX)"

text \<open>A table of two antennas whose rows are swapped, one gain per row.\<close>

definition swapped_table :: "complex cal_table" where
  "swapped_table =
     [\<lparr>ANTENNA1 = 1, CPARAM = \<lparr>shape = [1], elems = [2]\<rparr>, FLAG = \<lparr>shape = [1], elems = [True]\<rparr>\<rparr>,
      \<lparr>ANTENNA1 = 0, CPARAM = \<lparr>shape = [1], elems = [3]\<rparr>, FLAG = \<lparr>shape = [1], elems = [False]\<rparr>\<rparr>]"

section \<open>Epochs: str2MEpoch\<close>

subsection \<open>The scan of the time string\<close>

text \<open>
  \<open>str2MEpoch\<close> hands the string to \<^verbatim>\<open>sscanf\<close> with the format
  \<^verbatim>\<open>"%d-%d-%d-%d:%d:%lf"\<close> and throws unless all six conversions are made. The model
  of the scan follows the GNU C library, the \<^verbatim>\<open>sscanf\<close> the program runs with. A
  string is a list of bytes; the \<^verbatim>\<open>const char *\<close> of the source is the text before the
  terminating 0.

  \<^verbatim>\<open>%d\<close> skips white space and takes an optional sign and a nonempty run of decimal
  digits; the digits are converted as by \<^verbatim>\<open>strtol\<close>, which stops at the ends of the
  range of a 64-bit \<^verbatim>\<open>long\<close>, and the low 32 bits of the result are stored in the
  \<^verbatim>\<open>int\<close>. \<^verbatim>\<open>-\<close> and \<^verbatim>\<open>:\<close> must be the next character. \<^verbatim>\<open>%lf\<close>
  skips white space, takes an optional sign and then either \<^verbatim>\<open>nan\<close>, or
  \<^verbatim>\<open>inf\<close> or \<^verbatim>\<open>infinity\<close>, or the characters of a number: digits with at most
  one point, after \<^verbatim>\<open>0x\<close> hexadecimal digits, and after a digit an exponent
  marker with an optional sign and decimal digits. The characters taken are then
  converted by \<^verbatim>\<open>strtod\<close>, and the conversion counts when \<^verbatim>\<open>strtod\<close> converts at
  least one of them: an exponent marker that no digit follows is taken and ignored
  (\<^verbatim>\<open>1e\<close> is 1). Whatever follows the sixth item is not looked at.
\<close>

definition isspace :: "char \<Rightarrow> bool" where
  "isspace c = (c = CHR '' '' \<or> (9 \<le> (of_char c :: nat) \<and> (of_char c :: nat) \<le> 13))"

definition isdigit :: "char \<Rightarrow> bool" where
  "isdigit c = (48 \<le> (of_char c :: nat) \<and> (of_char c :: nat) \<le> 57)"

definition tolower :: "char \<Rightarrow> char" where
  "tolower c = (if 65 \<le> (of_char c :: nat) \<and> (of_char c :: nat) \<le> 90
                then char_of ((of_char c :: nat) + 32) else c)"

definition isxdigit :: "char \<Rightarrow> bool" where
  "isxdigit c = (isdigit c \<or> (97 \<le> (of_char (tolower c) :: nat) \<and> (of_char (tolower c) :: nat) \<le> 102))"

definition digit_value :: "char \<Rightarrow> nat" where
  "digit_value c = (if isdigit c then of_char c - 48 else of_char (tolower c) - 87)"

text \<open>The value of a run of digits in the given base.\<close>

definition digits_value :: "int \<Rightarrow> string \<Rightarrow> int" where
  "digits_value base ds = foldl (\<lambda>acc c. base * acc + int (digit_value c)) 0 ds"

definition skip_space :: "string \<Rightarrow> string" where
  "skip_space s = dropWhile isspace s"

fun scan_sign :: "string \<Rightarrow> bool \<times> string" where
  "scan_sign [] = (False, [])"
| "scan_sign (c # s) =
     (if c = CHR ''-'' then (True, s) else if c = CHR ''+'' then (False, s) else (False, c # s))"

text \<open>What \<^verbatim>\<open>strtol\<close> gives for a sign and a run of decimal digits, and the
  \<^verbatim>\<open>int\<close> that receives it.\<close>

definition strtol_value :: "bool \<Rightarrow> string \<Rightarrow> int" where
  "strtol_value neg ds =
     (let v = digits_value 10 ds;
          v = (if neg then - v else v)
      in max (- (2 ^ 63)) (min (2 ^ 63 - 1) v))"

definition to_int :: "int \<Rightarrow> int" where
  "to_int v = (v + 2 ^ 31) mod 2 ^ 32 - 2 ^ 31"

text \<open>\<^verbatim>\<open>%d\<close>: the converted value and the rest of the input, or \<open>None\<close>.\<close>

definition scan_d :: "string \<Rightarrow> (int \<times> string) option" where
  "scan_d s =
     (case scan_sign (skip_space s) of (neg, s1) \<Rightarrow>
        let ds = takeWhile isdigit s1 in
        if ds = [] then None
        else Some (to_int (strtol_value neg ds), dropWhile isdigit s1))"

text \<open>An ordinary character of the format.\<close>

fun scan_char :: "char \<Rightarrow> string \<Rightarrow> string option" where
  "scan_char c [] = None"
| "scan_char c (x # s) = (if x = c then Some s else None)"

text \<open>The value a \<^verbatim>\<open>%lf\<close> item stands for. Rounding to a \<^verbatim>\<open>double\<close> is not modelled.\<close>

datatype scanned_double = Finite real | Infinity bool | NaN

definition scale :: "real \<Rightarrow> real \<Rightarrow> int \<Rightarrow> real" where
  "scale m b e = (if 0 \<le> e then m * b ^ nat e else m / b ^ nat (- e))"

definition exp_char :: "bool \<Rightarrow> char" where
  "exp_char hex = (if hex then CHR ''p'' else CHR ''e'')"

text \<open>
  The loop that takes the characters of a number, one character per step, with the flags
  of the library: \<open>hex\<close> after \<^verbatim>\<open>0x\<close>, \<open>got_digit\<close>, \<open>got_e\<close> once the exponent
  marker is taken, \<open>got_dot\<close> once a point is taken or can no longer come. \<open>buf\<close> holds
  the characters taken so far. The result is the buffer and the input left.
\<close>

fun float_loop :: "bool \<Rightarrow> bool \<Rightarrow> bool \<Rightarrow> bool \<Rightarrow> string \<Rightarrow> string \<Rightarrow> string \<times> string" where
  "float_loop hex got_digit got_e got_dot buf [] = (buf, [])"
| "float_loop hex got_digit got_e got_dot buf (c # s) =
     (if isdigit c then float_loop hex True got_e got_dot (buf @ [c]) s
      else if \<not> got_e \<and> hex \<and> isxdigit c then float_loop hex True got_e got_dot (buf @ [c]) s
      else if got_e \<and> buf \<noteq> [] \<and> last buf = exp_char hex \<and> (c = CHR ''-'' \<or> c = CHR ''+'')
        then float_loop hex got_digit got_e got_dot (buf @ [c]) s
      else if got_digit \<and> \<not> got_e \<and> tolower c = exp_char hex
        then float_loop hex got_digit True True (buf @ [exp_char hex]) s
      else if \<not> got_dot \<and> c = CHR ''.'' then float_loop hex got_digit got_e True (buf @ [c]) s
      else (buf, c # s))"

text \<open>The exponent \<^verbatim>\<open>strtod\<close> reads at the end of the buffer: the marker, an optional
  sign and digits; without digits there is no exponent.\<close>

definition exponent_of :: "char \<Rightarrow> string \<Rightarrow> int" where
  "exponent_of marker s =
     (case s of
        [] \<Rightarrow> 0
      | c # s1 \<Rightarrow>
          if c \<noteq> marker then 0
          else (case scan_sign s1 of (neg, s2) \<Rightarrow>
                  let ds = takeWhile isdigit s2 in
                  if ds = [] then 0
                  else if neg then - digits_value 10 ds else digits_value 10 ds))"

text \<open>\<^verbatim>\<open>strtod\<close> on the buffer: \<open>None\<close> when it converts no character. After
  \<^verbatim>\<open>0x\<close> without a hexadecimal digit it converts the \<^verbatim>\<open>0\<close>.\<close>

definition strtod_value :: "bool \<Rightarrow> string \<Rightarrow> real option" where
  "strtod_value hex buf =
     (let is_dig = (if hex then isxdigit else isdigit);
          base = (if hex then 16 else 10);
          body = (if hex then drop 2 buf else buf);
          d1 = takeWhile is_dig body;
          s1 = dropWhile is_dig body;
          d2 = (case s1 of [] \<Rightarrow> [] | c # r \<Rightarrow> if c = CHR ''.'' then takeWhile is_dig r else []);
          s2 = (case s1 of [] \<Rightarrow> [] | c # r \<Rightarrow> if c = CHR ''.'' then dropWhile is_dig r else s1)
      in if d1 = [] \<and> d2 = [] then (if hex then Some 0 else None)
         else Some (scale (real_of_int (digits_value base (d1 @ d2)) / real_of_int base ^ length d2)
                      (if hex then 2 else 10) (exponent_of (exp_char hex) s2)))"

text \<open>How many leading characters of the input agree, ignoring case, with a word.\<close>

fun agree :: "string \<Rightarrow> string \<Rightarrow> nat" where
  "agree (w # ws) (c # s) = (if tolower c = w then Suc (agree ws s) else 0)"
| "agree ws s = 0"

text \<open>The item after the sign: its value (without the sign) and the rest. \<^verbatim>\<open>nan\<close>
  is three letters; after \<^verbatim>\<open>inf\<close> a further \<^verbatim>\<open>i\<close> must begin \<^verbatim>\<open>inity\<close>. A
  number must leave something in the buffer, and more than the bare \<^verbatim>\<open>0x\<close>.\<close>

definition scan_unsigned :: "string \<Rightarrow> (scanned_double \<times> string) option" where
  "scan_unsigned s =
     (if agree ''n'' s = 1 then
        (if agree ''nan'' s = 3 then Some (NaN, drop 3 s) else None)
      else if agree ''i'' s = 1 then
        (let n = agree ''infinity'' s in
         if n = 8 then Some (Infinity False, drop 8 s)
         else if n = 3 then Some (Infinity False, drop 3 s)
         else None)
      else
        (let hex = (agree ''0x'' s = 2);
             start = (if hex then take 2 s else []);
             input = (if hex then drop 2 s else s)
         in case float_loop hex False False False start input of (buf, rest) \<Rightarrow>
              if buf = [] \<or> (hex \<and> length buf = 2) then None
              else map_option (\<lambda>v. (Finite v, rest)) (strtod_value hex buf)))"

fun negate :: "scanned_double \<Rightarrow> scanned_double" where
  "negate (Finite v) = Finite (- v)"
| "negate (Infinity neg) = Infinity (\<not> neg)"
| "negate NaN = NaN"

text \<open>\<^verbatim>\<open>%lf\<close>.\<close>

definition scan_lf :: "string \<Rightarrow> (scanned_double \<times> string) option" where
  "scan_lf s =
     (case scan_sign (skip_space s) of (neg, s1) \<Rightarrow>
        map_option (\<lambda>(v, r). (if neg then negate v else v, r)) (scan_unsigned s1))"

text \<open>The whole format, directive by directive, each on what the one before left:
  \<open>Some\<close> of the six values exactly when \<^verbatim>\<open>sscanf\<close> returns 6.\<close>

definition sscanf_time :: "string \<Rightarrow> (int \<times> int \<times> int \<times> int \<times> int \<times> scanned_double) option" where
  "sscanf_time time =
     Option.bind (scan_d time) (\<lambda>(yy, s).
     Option.bind (scan_char (CHR ''-'') s) (\<lambda>s.
     Option.bind (scan_d s) (\<lambda>(MM, s).
     Option.bind (scan_char (CHR ''-'') s) (\<lambda>s.
     Option.bind (scan_d s) (\<lambda>(dd, s).
     Option.bind (scan_char (CHR ''-'') s) (\<lambda>s.
     Option.bind (scan_d s) (\<lambda>(hh, s).
     Option.bind (scan_char (CHR '':'') s) (\<lambda>s.
     Option.bind (scan_d s) (\<lambda>(mm, s).
     Option.bind (scan_char (CHR '':'') s) (\<lambda>s.
     Option.bind (scan_lf s) (\<lambda>(ss, s).
     Some (yy, MM, dd, hh, mm, ss))))))))))))"

subsection \<open>The epoch\<close>

text \<open>
  Modelled from the spec: casacore's \<^verbatim>\<open>Time\<close>, \<^verbatim>\<open>MVTime\<close>, \<^verbatim>\<open>MVEpoch\<close> and
  \<^verbatim>\<open>MEpoch\<close>, which the source only calls. The spec has an epoch as a UTC instant built
  from the parsed fields, with the offset added in seconds to the parsed instant before
  the epoch is constructed. An instant is a real number of seconds on the time axis of the
  library; the instant of the six calendar fields is the parameter \<open>Time\<close>, and
  \<^verbatim>\<open>Time(...) + offset\<close> adds the offset to it. An epoch is the instant and its reference.
\<close>

datatype epoch_type = TAI | UTC

record MEpoch =
  seconds :: real
  epoch_type :: epoch_type

definition invalid_msg :: string where
  "invalid_msg = ''Invalid String enountered in str2MEpoch()''"

definition str2MEpoch ::
  "(int \<Rightarrow> int \<Rightarrow> int \<Rightarrow> int \<Rightarrow> int \<Rightarrow> scanned_double \<Rightarrow> real) \<Rightarrow> string \<Rightarrow> real \<Rightarrow> exn + MEpoch" where
  "str2MEpoch Time time offset =
     (case sscanf_time time of
        None \<Rightarrow> Inl (runtime_error invalid_msg)
      | Some (yy, MM, dd, hh, mm, ss) \<Rightarrow>
          Inr \<lparr>seconds = Time yy MM dd hh mm ss + offset, epoch_type = UTC\<rparr>)"

subsection \<open>The pattern of the specification\<close>

text \<open>
  The fixed pattern \<^verbatim>\<open>YYYY-MM-DD-HH:MM:SS.s\<close> as the specification words it: four
  digits, then five groups of two digits, separated by \<^verbatim>\<open>-\<close>, \<^verbatim>\<open>-\<close>, \<^verbatim>\<open>-\<close>,
  \<^verbatim>\<open>:\<close>, \<^verbatim>\<open>:\<close>, then a point and one or more digits of the fraction, and nothing else.
\<close>

definition digits_at :: "string \<Rightarrow> nat \<Rightarrow> nat \<Rightarrow> bool" where
  "digits_at t i n = list_all isdigit (take n (drop i t))"

definition conforms :: "string \<Rightarrow> bool" where
  "conforms t =
     (21 \<le> length t
      \<and> digits_at t 0 4 \<and> t ! 4 = CHR ''-''
      \<and> digits_at t 5 2 \<and> t ! 7 = CHR ''-''
      \<and> digits_at t 8 2 \<and> t ! 10 = CHR ''-''
      \<and> digits_at t 11 2 \<and> t ! 13 = CHR '':''
      \<and> digits_at t 14 2 \<and> t ! 16 = CHR '':''
      \<and> digits_at t 17 2 \<and> t ! 19 = CHR ''.''
      \<and> list_all isdigit (drop 20 t))"

text \<open>A stand-in for the calendar arithmetic of the library, to run the model on examples:
  seconds counted with months of 31 days and years of 12 such months.\<close>

fun example_Time :: "int \<Rightarrow> int \<Rightarrow> int \<Rightarrow> int \<Rightarrow> int \<Rightarrow> scanned_double \<Rightarrow> real" where
  "example_Time yy MM dd hh mm (Finite ss) =
     real_of_int ((((yy * 12 + MM) * 31 + dd) * 24 + hh) * 60 + mm) * 60 + ss"
| "example_Time yy MM dd hh mm other = 0"

section \<open>Properties of the flag packing\<close>

subsection \<open>The loops as maps\<close>

lemma b2c_loop_eq:
  "i + length bs \<le> length cv \<Longrightarrow> i + length bs \<le> INT_MAX \<Longrightarrow>
     b2c_loop bs i cv = Returned (take i cv @ map of_bool bs @ drop (i + length bs) cv)"
proof (induction bs arbitrary: i cv)
  case Nil
  then show ?case by simp
next
  case (Cons b bs)
  from Cons.prems have lt: "i < length cv" and small: "\<not> INT_MAX \<le> i" by simp_all
  from Cons.prems have "Suc i + length bs \<le> length (cv[i := of_bool b])"
    and "Suc i + length bs \<le> INT_MAX" by simp_all
  from Cons.IH [OF this] small
  have "b2c_loop (b # bs) i cv =
          Returned (take (Suc i) (cv[i := of_bool b]) @ map of_bool bs
                    @ drop (Suc i + length bs) cv)"
    by simp
  also from lt have "take (Suc i) (cv[i := of_bool b]) = take i cv @ [of_bool b]"
    by (simp add: take_Suc_conv_app_nth)
  finally show ?case by simp
qed

lemma b2c_loop_map:
  "length bs = length cv \<Longrightarrow> length bs \<le> INT_MAX \<Longrightarrow>
   b2c_loop bs 0 cv = Returned (map of_bool bs)"
  using b2c_loop_eq [of 0 bs cv] by simp

lemma c2b_loop_eq:
  "i + length bs \<le> length cv \<Longrightarrow> i + length bs \<le> INT_MAX \<Longrightarrow>
     c2b_loop cv bs i w = Returned (w @ map (\<lambda>c. c \<noteq> 0) (take (length bs) (drop i cv)))"
proof (induction bs arbitrary: i w)
  case Nil
  then show ?case by simp
next
  case (Cons b bs)
  from Cons.prems have lt: "i < length cv" and small: "\<not> INT_MAX \<le> i" by simp_all
  from Cons.prems have le: "Suc i + length bs \<le> length cv"
    and le': "Suc i + length bs \<le> INT_MAX" by simp_all
  from lt have "drop i cv = cv ! i # drop (Suc i) cv"
    by (simp add: Cons_nth_drop_Suc)
  with Cons.IH [OF le le', of "w @ [cv ! i \<noteq> 0]"] small show ?case
    by simp
qed

lemma c2b_loop_map:
  "length bs = length cv \<Longrightarrow> length bs \<le> INT_MAX \<Longrightarrow>
   c2b_loop cv bs 0 [] = Returned (map (\<lambda>c. c \<noteq> 0) cv)"
  using c2b_loop_eq [of 0 bs cv "[]"] by simp

lemma of_bool_cchar_nonzero: "((of_bool b :: cchar) \<noteq> 0) = b"
  by (cases b) simp_all

lemma decode_encode: "map ((\<lambda>c :: cchar. c \<noteq> 0) \<circ> of_bool) bs = bs"
  by (induction bs) (simp_all add: of_bool_cchar_nonzero)

subsection \<open>The index at its limit\<close>

lemma b2c_loop_overflow:
  "i \<le> INT_MAX \<Longrightarrow> INT_MAX < i + length bs \<Longrightarrow>
   raised (b2c_loop bs i cv) = Some (undefined_behaviour int_overflow)"
proof (induction bs arbitrary: i cv)
  case Nil
  then show ?case by simp
next
  case (Cons b bs)
  show ?case
  proof (cases "INT_MAX \<le> i")
    case True
    then show ?thesis by simp
  next
    case False
    with Cons.prems have "Suc i \<le> INT_MAX" and "INT_MAX < Suc i + length bs" by simp_all
    from Cons.IH [OF this] False show ?thesis by simp
  qed
qed

lemma c2b_loop_overflow:
  "i \<le> INT_MAX \<Longrightarrow> INT_MAX < i + length bs \<Longrightarrow>
   raised (c2b_loop cv bs i w) = Some (undefined_behaviour int_overflow)"
proof (induction bs arbitrary: i w)
  case Nil
  then show ?case by simp
next
  case (Cons b bs)
  show ?case
  proof (cases "INT_MAX \<le> i")
    case True
    then show ?thesis by simp
  next
    case False
    with Cons.prems have "Suc i \<le> INT_MAX" and "INT_MAX < Suc i + length bs" by simp_all
    from Cons.IH [OF this] False show ?thesis by simp
  qed
qed

lemma pack_overflow:
  "length boolArr = length charVec \<Longrightarrow> INT_MAX < length boolArr \<Longrightarrow>
   raised (boolArray2charVector boolArr charVec) = Some (undefined_behaviour int_overflow)"
  using b2c_loop_overflow [of 0 boolArr charVec] by (simp add: boolArray2charVector_def)

lemma unpack_overflow:
  "length boolArr = length charVec \<Longrightarrow> INT_MAX < length boolArr \<Longrightarrow>
   raised (charVector2boolArray charVec boolArr) = Some (undefined_behaviour int_overflow)"
  using c2b_loop_overflow [of 0 boolArr charVec "[]"] by (simp add: charVector2boolArray_def)

subsection \<open>Round trip\<close>

text \<open>
  Claim C4, as the code has it. For every boolean array \<open>x\<close> of at most \<open>2^31 - 1\<close>
  elements (the range of the \<^verbatim>\<open>int\<close> index), every byte buffer \<open>charVec\<close> with as many
  elements as \<open>x\<close> (whatever it held before) and every destination array \<open>y\<close> of the
  same element count, packing \<open>x\<close> into \<open>charVec\<close> returns without an exception, leaves
  a buffer of the same size, and unpacking that buffer into \<open>y\<close> returns exactly \<open>x\<close>:
  same size, same element order, same values.
\<close>

theorem flag_roundtrip:
  assumes "length charVec = length x" and "length y = length x" and "length x \<le> INT_MAX"
  shows "raised (boolArray2charVector x charVec) = None
       \<and> length (dest_of (boolArray2charVector x charVec)) = length x
       \<and> charVector2boolArray (dest_of (boolArray2charVector x charVec)) y = Returned x"
proof -
  from assms have packed: "boolArray2charVector x charVec = Returned (map of_bool x)"
    by (simp add: boolArray2charVector_def b2c_loop_map)
  from assms have "c2b_loop (map of_bool x) y 0 [] = Returned (map (\<lambda>c. c \<noteq> 0) (map of_bool x :: cchar list))"
    by (intro c2b_loop_map) simp_all
  then have "charVector2boolArray (map of_bool x) y = Returned x"
    using assms by (simp add: charVector2boolArray_def decode_encode)
  with packed show ?thesis by simp
qed

theorem flag_roundtrip_witness:
  "length [7, 0, 9 :: cchar] = length [True, False, True]
   \<and> length [False, False, False] = length [True, False, True]
   \<and> length [True, False, True] \<le> INT_MAX
   \<and> raised (boolArray2charVector [True, False, True] [7, 0, 9]) = None
   \<and> charVector2boolArray (dest_of (boolArray2charVector [True, False, True] [7, 0, 9]))
        [False, False, False] = Returned [True, False, True]"
proof -
  have small: "length [True, False, True] \<le> INT_MAX" by (simp add: INT_MAX_def)
  from flag_roundtrip [of "[7, 0, 9]" "[True, False, True]" "[False, False, False]"] small
  show ?thesis by simp
qed

text \<open>
  A boolean array of \<open>2^31\<close> elements and a byte buffer of the same size pass the size
  check, and the loop reaches \<^verbatim>\<open>i++\<close> with \<open>i = INT_MAX\<close>: the packing does not
  return, so there is no buffer to unpack.
\<close>

theorem flag_roundtrip_counterexample:
  "length (replicate 2147483648 (0 :: cchar)) = length (replicate 2147483648 True)
   \<and> raised (boolArray2charVector (replicate 2147483648 True) (replicate 2147483648 0))
       = Some (undefined_behaviour int_overflow)"
proof -
  have eq: "length (replicate 2147483648 True) = length (replicate 2147483648 (0 :: cchar))"
    by (simp only: length_replicate)
  have big: "INT_MAX < length (replicate 2147483648 True)"
    by (simp only: length_replicate INT_MAX_def)
  from pack_overflow [OF eq big] eq [symmetric] show ?thesis
    by (rule conjI [rotated])
qed

subsection \<open>The size check\<close>

text \<open>
  Claim C5, as the code has it. Whenever the element count of the boolean array differs
  from the size of the byte buffer, \<open>boolArray2charVector\<close> throws the length error;
  whenever the two agree and are at most \<open>2^31 - 1\<close> (the range of the \<^verbatim>\<open>int\<close> index)
  it returns, and the buffer it returns has the size it had (nothing is truncated or
  extended). \<open>charVector2boolArray\<close> makes the same check with the same outcome.
\<close>

theorem size_check:
  "(length boolArr \<noteq> length charVec \<longrightarrow>
      raised (boolArray2charVector boolArr charVec) = Some (length_error mismatch_msg)
    \<and> raised (charVector2boolArray charVec boolArr) = Some (length_error mismatch_msg))
   \<and> (length boolArr = length charVec \<and> length boolArr \<le> INT_MAX \<longrightarrow>
      raised (boolArray2charVector boolArr charVec) = None
    \<and> length (dest_of (boolArray2charVector boolArr charVec)) = length charVec
    \<and> raised (charVector2boolArray charVec boolArr) = None
    \<and> length (dest_of (charVector2boolArray charVec boolArr)) = length boolArr)"
  by (simp add: boolArray2charVector_def charVector2boolArray_def b2c_loop_map c2b_loop_map)

theorem size_check_witness:
  "length [True, False] \<noteq> length [1 :: cchar]
   \<and> raised (boolArray2charVector [True, False] [1]) = Some (length_error mismatch_msg)
   \<and> raised (charVector2boolArray [1] [True, False]) = Some (length_error mismatch_msg)
   \<and> length [True, False] = length [5, 5 :: cchar]
   \<and> length [True, False] \<le> INT_MAX
   \<and> raised (boolArray2charVector [True, False] [5, 5]) = None
   \<and> raised (charVector2boolArray [5, 5] [True, False]) = None"
proof -
  have small: "length [True, False] \<le> INT_MAX" by (simp add: INT_MAX_def)
  from size_check [of "[True, False]" "[1]"] size_check [of "[True, False]" "[5, 5]"] small
  show ?thesis by simp
qed

text \<open>
  Two sizes that match, \<open>2^31\<close> and \<open>2^31\<close>, for which neither function succeeds: the
  index overflows at the last element.
\<close>

theorem size_check_counterexample:
  "length (replicate 2147483648 False) = length (replicate 2147483648 (1 :: cchar))
   \<and> raised (boolArray2charVector (replicate 2147483648 False) (replicate 2147483648 1)) \<noteq> None
   \<and> raised (charVector2boolArray (replicate 2147483648 1) (replicate 2147483648 False)) \<noteq> None"
proof -
  have eq: "length (replicate 2147483648 False) = length (replicate 2147483648 (1 :: cchar))"
    by (simp only: length_replicate)
  have big: "INT_MAX < length (replicate 2147483648 False)"
    by (simp only: length_replicate INT_MAX_def)
  from pack_overflow [OF eq big] unpack_overflow [OF eq big]
  have "raised (boolArray2charVector (replicate 2147483648 False) (replicate 2147483648 1)) \<noteq> None"
    and "raised (charVector2boolArray (replicate 2147483648 1) (replicate 2147483648 False)) \<noteq> None"
    by (simp_all only: option.distinct not_False_eq_True)
  with eq show ?thesis by (intro conjI)
qed

subsection \<open>Decoding of bytes\<close>

text \<open>
  Claim C9, as the code has it. For a byte buffer of at most \<open>2^31 - 1\<close> bytes (the range
  of the \<^verbatim>\<open>int\<close> index) whose size matches the array, \<open>charVector2boolArray\<close>
  returns the array whose element \<open>i\<close> is true exactly when byte \<open>i\<close> is not 0: every
  nonzero byte, not only 1, decodes to true, and 0 decodes to false. It undoes
  \<open>boolArray2charVector\<close> (which writes only 0 and 1), and two buffers that differ
  only in which nonzero value they hold decode to the same array.
\<close>

theorem nonzero_is_true:
  assumes "length charVec = length boolArr" and "length charVec \<le> INT_MAX"
  shows "charVector2boolArray charVec boolArr = Returned (map (\<lambda>c. c \<noteq> 0) charVec)
       \<and> (\<forall>i < length charVec.
             dest_of (charVector2boolArray charVec boolArr) ! i = (charVec ! i \<noteq> 0))
       \<and> charVector2boolArray (map of_bool boolArr) boolArr = Returned boolArr
       \<and> (\<forall>other. length other = length charVec
             \<and> (\<forall>i < length charVec. (other ! i = 0) = (charVec ! i = 0))
             \<longrightarrow> charVector2boolArray other boolArr = charVector2boolArray charVec boolArr)"
proof -
  from assms have dec: "charVector2boolArray charVec boolArr = Returned (map (\<lambda>c. c \<noteq> 0) charVec)"
    by (simp add: charVector2boolArray_def c2b_loop_map)
  from assms have "c2b_loop (map of_bool boolArr) boolArr 0 []
      = Returned (map (\<lambda>c. c \<noteq> 0) (map of_bool boolArr :: cchar list))"
    by (intro c2b_loop_map) simp_all
  then have inv: "charVector2boolArray (map of_bool boolArr) boolArr = Returned boolArr"
    by (simp add: charVector2boolArray_def decode_encode)
  have same: "charVector2boolArray other boolArr = charVector2boolArray charVec boolArr"
    if len: "length other = length charVec"
      and z: "\<forall>i < length charVec. (other ! i = 0) = (charVec ! i = 0)" for other
  proof -
    from len z have "map (\<lambda>c. c \<noteq> 0) other = map (\<lambda>c. c \<noteq> 0) charVec"
      by (simp add: list_eq_iff_nth_eq)
    with len assms show ?thesis
      by (simp add: charVector2boolArray_def c2b_loop_map)
  qed
  have nth: "\<forall>i < length charVec.
      dest_of (charVector2boolArray charVec boolArr) ! i = (charVec ! i \<noteq> 0)"
    by (simp add: dec)
  from dec nth inv same show ?thesis by blast
qed

theorem nonzero_is_true_witness:
  "length [0, 1, 2, 255 :: cchar] = length [False, False, False, False]
   \<and> length [0, 1, 2, 255 :: cchar] \<le> INT_MAX
   \<and> charVector2boolArray [0, 1, 2, 255] [False, False, False, False]
       = Returned [False, True, True, True]
   \<and> charVector2boolArray [0, 1, 1, 1] [False, False, False, False]
       = charVector2boolArray [0, 1, 2, 255] [False, False, False, False]"
proof -
  have len: "length [0, 1, 2, 255 :: cchar] = length [False, False, False, False]"
    by simp
  have small: "length [0, 1, 2, 255 :: cchar] \<le> INT_MAX"
    by (simp add: INT_MAX_def)
  have z: "length [0, 1, 1, 1 :: cchar] = length [0, 1, 2, 255 :: cchar]
      \<and> (\<forall>i < length [0, 1, 2, 255 :: cchar].
            ([0, 1, 1, 1 :: cchar] ! i = 0) = ([0, 1, 2, 255 :: cchar] ! i = 0))"
    by (simp add: less_Suc_eq nth_Cons')
  note inst = nonzero_is_true [OF len small]
  from inst have "charVector2boolArray [0, 1, 2, 255] [False, False, False, False]
       = Returned (map (\<lambda>c. c \<noteq> 0) [0, 1, 2, 255 :: cchar])"
    by (rule conjunct1)
  moreover from inst z
  have "charVector2boolArray [0, 1, 1, 1] [False, False, False, False]
       = charVector2boolArray [0, 1, 2, 255] [False, False, False, False]"
    by blast
  ultimately show ?thesis using len small by simp
qed

text \<open>
  A buffer of \<open>2^31\<close> nonzero bytes and an array of the same size: the decoding does not
  return the array of \<open>2^31\<close> true flags.
\<close>

theorem nonzero_is_true_counterexample:
  "length (replicate 2147483648 (255 :: cchar)) = length (replicate 2147483648 False)
   \<and> raised (charVector2boolArray (replicate 2147483648 255) (replicate 2147483648 False))
       = Some (undefined_behaviour int_overflow)"
proof -
  have eq: "length (replicate 2147483648 False) = length (replicate 2147483648 (255 :: cchar))"
    by (simp only: length_replicate)
  have big: "INT_MAX < length (replicate 2147483648 False)"
    by (simp only: length_replicate INT_MAX_def)
  from eq [symmetric] unpack_overflow [OF eq big] show ?thesis
    by (rule conjI)
qed

subsection \<open>Nothing is written when the size check fails\<close>

text \<open>
  Claim C10. When the sizes differ, each of the two functions throws before its loop
  starts: the destination the caller passed (the byte buffer of \<open>boolArray2charVector\<close>,
  the boolean array of \<open>charVector2boolArray\<close>) is what it was before the call.
\<close>

theorem mismatch_leaves_destination:
  assumes "length boolArr \<noteq> length charVec"
  shows "boolArray2charVector boolArr charVec = Raised (length_error mismatch_msg) charVec
       \<and> dest_of (boolArray2charVector boolArr charVec) = charVec
       \<and> charVector2boolArray charVec boolArr = Raised (length_error mismatch_msg) boolArr
       \<and> dest_of (charVector2boolArray charVec boolArr) = boolArr"
  using assms by (simp add: boolArray2charVector_def charVector2boolArray_def)

theorem mismatch_leaves_destination_witness:
  "length [True, False, True] \<noteq> length [4, 5 :: cchar]
   \<and> dest_of (boolArray2charVector [True, False, True] [4, 5]) = [4, 5]
   \<and> dest_of (charVector2boolArray [4, 5] [True, False, True]) = [True, False, True]"
  using mismatch_leaves_destination [of "[True, False, True]" "[4, 5]"]
  by simp

section \<open>Properties of the baseline enumeration\<close>

lemma uvw_inner_eq:
  "i < nAnt \<Longrightarrow> j \<le> nAnt \<Longrightarrow> c + (nAnt - j) \<le> length uvw \<Longrightarrow>
   uvw_inner antPos nAnt i j (uvw, c) =
     Inr (take c uvw @ map (\<lambda>j. column_diff (antPos ! i) (antPos ! j)) [j..<nAnt]
            @ drop (c + (nAnt - j)) uvw, c + (nAnt - j))"
proof (induction antPos nAnt i j "(uvw, c)" arbitrary: uvw c rule: uvw_inner.induct)
  case (1 antPos nAnt i j uvw c)
  show ?case
  proof (cases "j < nAnt")
    case False
    with "1.prems" show ?thesis by (subst uvw_inner.simps) simp
  next
    case True
    let ?v = "column_diff (antPos ! i) (antPos ! j)"
    from True "1.prems" have c: "c < length uvw" by simp
    then have put: "put_column uvw c ?v = Inr (uvw[c := ?v])" by (simp add: put_column_def)
    from True "1.prems" have pre: "Suc c + (nAnt - Suc j) \<le> length (uvw[c := ?v])" by simp
    have "uvw_inner antPos nAnt i (j + 1) (uvw[c := ?v], c + 1) =
      Inr (take (c + 1) (uvw[c := ?v]) @ map (\<lambda>j. column_diff (antPos ! i) (antPos ! j)) [j + 1..<nAnt]
            @ drop (c + 1 + (nAnt - (j + 1))) (uvw[c := ?v]), c + 1 + (nAnt - (j + 1)))"
      using True "1.prems" pre put by (intro "1.hyps") simp_all
    moreover from c have "take (c + 1) (uvw[c := ?v]) = take c uvw @ [?v]"
      by (simp add: take_Suc_conv_app_nth)
    moreover from True have "[j..<nAnt] = j # [j + 1..<nAnt]" by (simp add: upt_conv_Cons)
    moreover from True have "c + 1 + (nAnt - (j + 1)) = c + (nAnt - j)" by simp
    ultimately show ?thesis using True put
      by (subst uvw_inner.simps) simp
  qed
qed


lemma row_sum_step: "i < n \<Longrightarrow> (\<Sum>k = i..<n. n - k :: nat) = (n - i) + (\<Sum>k = Suc i..<n. n - k)"
  by (simp add: sum.atLeast_Suc_lessThan)

lemma gauss_rows: "2 * (\<Sum>k = i..<n. n - k) = (n - i) * (n - i + 1)" for i n :: nat
proof (induction "n - i" arbitrary: i)
  case 0
  then show ?case by simp
next
  case (Suc d)
  then have lt: "i < n" and d: "d = n - Suc i" by simp_all
  from Suc.hyps(1) [OF d] have "2 * (\<Sum>k = Suc i..<n. n - k) = (n - Suc i) * (n - Suc i + 1)" .
  moreover from lt have "n - i = Suc (n - Suc i)" by simp
  ultimately show ?case using lt by (simp add: row_sum_step)
qed

lemma gauss_all: "(\<Sum>k = 0..<n. n - k) = (n + 1) * n div 2" for n :: nat
proof -
  have "2 * (\<Sum>k = 0..<n. n - k) = (n + 1) * n" using gauss_rows [where i = 0 and n = n] by (simp add: mult.commute)
  then show ?thesis by simp
qed

lemma uvw_outer_eq:
  "i \<le> nAnt \<Longrightarrow> c + (\<Sum>k = i..<nAnt. nAnt - k) \<le> length uvw \<Longrightarrow>
   uvw_outer antPos nAnt i (uvw, c) =
     Inr (take c uvw
          @ concat (map (\<lambda>i. map (\<lambda>j. column_diff (antPos ! i) (antPos ! j)) [i..<nAnt]) [i..<nAnt])
          @ drop (c + (\<Sum>k = i..<nAnt. nAnt - k)) uvw,
          c + (\<Sum>k = i..<nAnt. nAnt - k))"
proof (induction antPos nAnt i "(uvw, c)" arbitrary: uvw c rule: uvw_outer.induct)
  case (1 antPos nAnt i uvw c)
  show ?case
  proof (cases "i < nAnt")
    case False
    with "1.prems" show ?thesis by (subst uvw_outer.simps) simp
  next
    case True
    let ?row = "map (\<lambda>j. column_diff (antPos ! i) (antPos ! j)) [i..<nAnt]"
    let ?rest = "\<Sum>k = Suc i..<nAnt. nAnt - k"
    let ?uvw1 = "take c uvw @ ?row @ drop (c + (nAnt - i)) uvw"
    let ?c1 = "c + (nAnt - i)"
    from True have split: "(\<Sum>k = i..<nAnt. nAnt - k) = (nAnt - i) + ?rest"
      by (rule row_sum_step)
    with "1.prems" have room: "c + (nAnt - i) \<le> length uvw" by simp
    with True have inner: "uvw_inner antPos nAnt i i (uvw, c) = Inr (?uvw1, ?c1)"
      by (simp add: uvw_inner_eq)
    from room have len1: "length ?uvw1 = length uvw" by simp
    from "1.prems" split have pre: "?c1 + ?rest \<le> length ?uvw1"
      unfolding len1 by simp
    from True have "Suc i \<le> nAnt" by simp
    with True inner pre
    have "uvw_outer antPos nAnt (i + 1) (?uvw1, ?c1) =
      Inr (take ?c1 ?uvw1
          @ concat (map (\<lambda>i. map (\<lambda>j. column_diff (antPos ! i) (antPos ! j)) [i..<nAnt]) [i + 1..<nAnt])
          @ drop (?c1 + (\<Sum>k = i + 1..<nAnt. nAnt - k)) ?uvw1,
          ?c1 + (\<Sum>k = i + 1..<nAnt. nAnt - k))"
      by (intro "1.hyps") simp_all
    moreover from room have "take ?c1 ?uvw1 = take c uvw @ ?row" by simp
    moreover from room have "drop (?c1 + ?rest) ?uvw1 = drop (c + ((nAnt - i) + ?rest)) uvw"
      by (simp add: ac_simps)
    moreover from True have "[i..<nAnt] = i # [i + 1..<nAnt]" by (simp add: upt_conv_Cons)
    ultimately show ?thesis using True inner split
      by (subst uvw_outer.simps) (simp add: add.assoc)
  qed
qed


lemma length_rows:
  "length (concat (map (\<lambda>i. map (f i) [i..<n]) [i0..<n])) = (\<Sum>k = i0..<n. n - k)"
  by (simp add: length_concat comp_def interv_sum_list_conv_sum_set_nat)

lemma nth_rows:
  "i0 \<le> i \<Longrightarrow> i \<le> j \<Longrightarrow> j < n \<Longrightarrow>
   concat (map (\<lambda>i. map (f i) [i..<n]) [i0..<n]) ! ((\<Sum>k = i0..<i. n - k) + (j - i)) = f i j"
proof (induction "i - i0" arbitrary: i0)
  case 0
  then have eq: "i0 = i" and lt: "i < n" by simp_all
  define g where "g = (\<lambda>i. map (f i) [i..<n])"
  from lt have "[i..<n] = i # [Suc i..<n]" by (simp add: upt_conv_Cons)
  then have "concat (map g [i..<n]) = g i @ concat (map g [Suc i..<n])" by simp
  moreover from 0 have "j - i < length (g i)" by (simp add: g_def)
  ultimately have "concat (map g [i..<n]) ! (j - i) = g i ! (j - i)" by (simp add: nth_append)
  also from 0 have "\<dots> = f i j" by (simp add: g_def)
  finally show ?case by (simp add: eq g_def)
next
  case (Suc d)
  then have lt: "i0 < i" and d: "d = i - Suc i0" and le: "Suc i0 \<le> i" by simp_all
  define g where "g = (\<lambda>i. map (f i) [i..<n])"
  from lt Suc.prems have "i0 < n" by simp
  then have "[i0..<n] = i0 # [Suc i0..<n]" by (simp add: upt_conv_Cons)
  then have cons: "concat (map g [i0..<n]) = g i0 @ concat (map g [Suc i0..<n])" by simp
  have leng: "length (g i0) = n - i0" by (simp add: g_def)
  from lt have sum: "(\<Sum>k = i0..<i. n - k) = (n - i0) + (\<Sum>k = Suc i0..<i. n - k)"
    by (simp add: sum.atLeast_Suc_lessThan)
  from Suc.hyps(1) [OF d le Suc.prems(2,3)]
  have "concat (map g [Suc i0..<n]) ! ((\<Sum>k = Suc i0..<i. n - k) + (j - i)) = f i j"
    by (simp add: g_def)
  then have "concat (map g [i0..<n]) ! ((\<Sum>k = i0..<i. n - k) + (j - i)) = f i j"
    by (simp add: cons sum nth_append leng add.assoc)
  then show ?case by (simp add: g_def)
qed

lemma column_diff_self: "column_diff v v = (0, 0, 0)"
  by (cases v) simp

text \<open>
  Claim C2, as the code has it. For every sequence of \<open>N\<close> antenna positions whose count
  keeps \<open>(N + 1) * N\<close> within a 32-bit \<^verbatim>\<open>int\<close> (that is \<open>N \<le> 46340\<close>),
  \<open>zenithUVWs\<close> returns exactly \<open>N (N + 1) / 2\<close> baselines, in the order: for
  \<open>i\<close> ascending from 0, for \<open>j\<close> ascending from \<open>i\<close>. The baseline of the pair
  \<open>(i, j)\<close> is the per-axis difference of position \<open>i\<close> and position \<open>j\<close>; each
  \<open>(i, i)\<close> baseline is the zero vector; no antennas give no baselines. The result does
  not depend on what the freshly allocated matrix held.
\<close>

theorem zenith_baselines:
  assumes "(length antPos + 1) * length antPos \<le> INT_MAX"
  shows "\<exists>uvw. zenithUVWs junk antPos = Inr uvw
       \<and> uvw = concat (map (\<lambda>i. map (\<lambda>j. column_diff (antPos ! i) (antPos ! j))
                                      [i..<length antPos]) [0..<length antPos])
       \<and> length uvw = length antPos * (length antPos + 1) div 2
       \<and> (\<forall>i j. i \<le> j \<and> j < length antPos \<longrightarrow>
             uvw ! pair_index (length antPos) i j = column_diff (antPos ! i) (antPos ! j))
       \<and> (\<forall>i < length antPos. uvw ! pair_index (length antPos) i i = (0, 0, 0))
       \<and> (antPos = [] \<longrightarrow> uvw = [])"
proof -
  let ?n = "length antPos"
  let ?f = "\<lambda>i j. column_diff (antPos ! i) (antPos ! j)"
  let ?all = "concat (map (\<lambda>i. map (?f i) [i..<?n]) [0..<?n])"
  define total where "total = (?n + 1) * ?n div 2"
  have sum: "(\<Sum>k = 0..<?n. ?n - k) = total"
    by (simp only: gauss_all total_def)
  have len: "length ?all = total"
    by (simp only: length_rows sum)
  have lenm: "length (Matrix3 junk total) = total" by (simp add: Matrix3_def)
  have "uvw_outer antPos ?n 0 (Matrix3 junk total, 0) =
     Inr (take 0 (Matrix3 junk total) @ ?all @ drop (0 + (\<Sum>k = 0..<?n. ?n - k)) (Matrix3 junk total),
          0 + (\<Sum>k = 0..<?n. ?n - k))"
    by (rule uvw_outer_eq) (simp_all only: sum lenm le0 add_0 order_refl)
  then have "uvw_outer antPos ?n 0 (Matrix3 junk total, 0) = Inr (?all, total)"
    by (simp add: sum lenm)
  with assms have run: "zenithUVWs junk antPos = Inr ?all"
    by (simp add: zenithUVWs_def Let_def total_def)
  have half: "total = ?n * (?n + 1) div 2" by (simp add: total_def mult.commute)
  have nth: "?all ! pair_index ?n i j = ?f i j" if "i \<le> j" "j < ?n" for i j
    unfolding pair_index_def using that by (intro nth_rows) simp_all
  have diag: "?all ! pair_index ?n i i = (0, 0, 0)" if "i < ?n" for i
    using nth [of i i] that by (simp add: column_diff_self)
  from run len nth diag show ?thesis
    unfolding half by simp
qed

theorem zenith_baselines_witness:
  "(length [(0, 0, 0), (10, 0, 0) :: vec3] + 1) * length [(0, 0, 0), (10, 0, 0) :: vec3] \<le> INT_MAX
   \<and> zenithUVWs zeroed [(0, 0, 0), (10, 0, 0)] = Inr [(0, 0, 0), (- 10, 0, 0), (0, 0, 0)]"
proof -
  have small: "(length [(0, 0, 0), (10, 0, 0) :: vec3] + 1) * length [(0, 0, 0), (10, 0, 0) :: vec3] \<le> INT_MAX"
    by (simp add: INT_MAX_def)
  have "[0..<2] = [0, Suc 0]" by (simp add: upt_conv_Cons)
  with zenith_baselines [OF small, of zeroed] small show ?thesis
    by (auto simp add: upt_conv_Cons)
qed

text \<open>
  For 46341 antennas the product \<open>(nAnt+1)*nAnt = 2147534622\<close> exceeds the largest
  \<^verbatim>\<open>int\<close>, 2147483647: the size of the result is not computed, and no sequence of
  \<open>N (N + 1) / 2\<close> baselines comes back.
\<close>

theorem zenith_overflow_counterexample:
  "length (replicate 46341 ((0, 0, 0) :: vec3)) = 46341
   \<and> zenithUVWs zeroed (replicate 46341 (0, 0, 0)) = Inl int_overflow"
  by (simp add: zenithUVWs_def INT_MAX_def)

section \<open>Properties of the geocentric transform\<close>




section \<open>Properties of the calibration ingest\<close>

lemma antenna1_loop_Some:
  "\<exists>k < length rs. ANTENNA1 (rs ! k) \<noteq> int (i + k) \<Longrightarrow>
   antenna1_loop rs i = Some (length_error one_row_msg)"
proof (induction rs arbitrary: i)
  case Nil
  then show ?case by simp
next
  case (Cons r rs)
  show ?case
  proof (cases "ANTENNA1 r \<noteq> int i")
    case True
    then show ?thesis by simp
  next
    case False
    from Cons.prems obtain k where k: "k < length (r # rs)" "ANTENNA1 ((r # rs) ! k) \<noteq> int (i + k)"
      by blast
    with False obtain k' where k': "k = Suc k'" by (cases k) simp_all
    with k have "\<exists>k < length rs. ANTENNA1 (rs ! k) \<noteq> int (Suc i + k)" by auto
    from Cons.IH [OF this] False show ?thesis by simp
  qed
qed

lemma antenna1_loop_None:
  "\<forall>k < length rs. ANTENNA1 (rs ! k) = int (i + k) \<Longrightarrow> antenna1_loop rs i = None"
proof (induction rs arbitrary: i)
  case Nil
  then show ?case by simp
next
  case (Cons r rs)
  from Cons.prems have "ANTENNA1 r = int i" by fastforce
  moreover from Cons.prems have "\<forall>k < length rs. ANTENNA1 (rs ! k) = int (Suc i + k)" by fastforce
  ultimately show ?case using Cons.IH [of "Suc i"] by simp
qed

lemma length_concat_uniform:
  "list_all (\<lambda>r. length (f r) = n) xs \<Longrightarrow> length (concat (map f xs)) = length xs * n"
  by (induction xs) simp_all

lemma length_resize: "length (resize n v) = n"
  by (simp add: resize_def)

lemma shape0_nonempty: "col \<noteq> [] \<Longrightarrow> shape0 col = Inr (shape (hd col))"
  by (cases col) (simp_all add: shape0_def)

lemma getColumn_into_uniform:
  "\<forall>c \<in> set col. shape c = s \<Longrightarrow>
   getColumn_into (s @ [length col]) col = Inr (concat (map elems col))"
  by (simp add: getColumn_into_def)

lemma getColumn_uniform:
  "\<forall>c \<in> set col. shape c = s \<Longrightarrow> getColumn col = Inr (concat (map elems col))"
  by (cases col) (simp_all add: getColumn_def)

lemma regular_columns:
  assumes "regular_table cal"
  shows "cal \<noteq> []"
    and "\<forall>c \<in> set (map CPARAM cal). shape c = shape (CPARAM (hd cal))"
    and "\<forall>c \<in> set (map FLAG cal). shape c = shape (FLAG (hd cal))"
    and "list_all (\<lambda>r. length (elems (FLAG r)) = prod_list (shape (CPARAM (hd cal)))) cal"
    and "prod_list (shape (CPARAM (hd cal)) @ [length cal]) \<le> INT_MAX"
proof -
  from assms show "cal \<noteq> []" unfolding regular_table_def by blast
  from assms show "\<forall>c \<in> set (map CPARAM cal). shape c = shape (CPARAM (hd cal))"
    unfolding regular_table_def list_all_iff set_map by blast
  from assms show "\<forall>c \<in> set (map FLAG cal). shape c = shape (FLAG (hd cal))"
    unfolding regular_table_def list_all_iff set_map by blast
  from assms have "\<forall>r \<in> set cal. length (elems (FLAG r)) = prod_list (shape (CPARAM (hd cal)))"
    unfolding regular_table_def list_all_iff by metis
  then show "list_all (\<lambda>r. length (elems (FLAG r)) = prod_list (shape (CPARAM (hd cal)))) cal"
    unfolding list_all_iff .
  from assms show "prod_list (shape (CPARAM (hd cal)) @ [length cal]) \<le> INT_MAX"
    unfolding regular_table_def by blast
qed

lemma regular_read:
  assumes reg: "regular_table cal"
  shows "readCalTable cal (gain, flag) =
     (case antenna1_loop cal 0 of
        Some e \<Rightarrow> Raised e (concat (map (\<lambda>r. elems (CPARAM r)) cal),
                             map of_bool (concat (map (\<lambda>r. elems (FLAG r)) cal)))
      | None \<Rightarrow> Returned (concat (map (\<lambda>r. elems (CPARAM r)) cal),
                            map of_bool (concat (map (\<lambda>r. elems (FLAG r)) cal))))"
proof -
  define s where "s = shape (CPARAM (hd cal))"
  define n where "n = prod_list (s @ [length cal])"
  define gains where "gains = concat (map (\<lambda>r. elems (CPARAM r)) cal)"
  define flags where "flags = concat (map (\<lambda>r. elems (FLAG r)) cal)"
  note cols = regular_columns [OF reg]
  from cols(1) have sh: "shape0 (map CPARAM cal) = Inr s"
    by (simp add: shape0_nonempty hd_map s_def)
  from getColumn_into_uniform [OF cols(2)]
  have gc: "getColumn_into (s @ [length cal]) (map CPARAM cal) = Inr gains"
    by (simp add: s_def gains_def comp_def)
  from getColumn_uniform [OF cols(3)]
  have fc: "getColumn (map FLAG cal) = Inr flags"
    by (simp add: flags_def comp_def)
  from cols(4) have "length flags = length cal * prod_list s"
    unfolding flags_def s_def by (rule length_concat_uniform)
  then have len: "length flags = length (resize n flag)"
    by (simp add: length_resize n_def mult.commute)
  from cols(5) have "n \<le> INT_MAX" by (simp only: n_def s_def)
  with len have "length flags \<le> INT_MAX" by (simp add: length_resize)
  with len have pack: "boolArray2charVector flags (resize n flag) = Returned (map of_bool flags)"
    by (simp add: boolArray2charVector_def b2c_loop_map)
  have "readCalTable cal (gain, flag) =
     (case antenna1_loop cal 0 of
        Some e \<Rightarrow> Raised e (gains, map of_bool flags)
      | None \<Rightarrow> Returned (gains, map of_bool flags))"
    unfolding readCalTable_def Let_def prod.case sh sum.case n_def [symmetric] gc fc pack
      outcome.case ..
  then show ?thesis by (simp only: gains_def flags_def)
qed

lemma readCalTable_in_order:
  assumes "regular_table cal" and "\<forall>r < length cal. ANTENNA1 (cal ! r) = int r"
  shows "readCalTable cal (gain, flag) =
           Returned (concat (map (\<lambda>r. elems (CPARAM r)) cal),
                     map of_bool (concat (map (\<lambda>r. elems (FLAG r)) cal)))"
proof -
  from assms(2) have "antenna1_loop cal 0 = None"
    by (intro antenna1_loop_None) simp
  with regular_read [OF assms(1)] show ?thesis by simp
qed

text \<open>
  Claim C1, as the code has it. For every calibration table in which some row \<open>r\<close> has
  \<open>ANTENNA1 r \<noteq> r\<close>, \<open>readCalTable\<close> throws. The check of the rows is the last
  thing the function does: when the columns can be read (every row has the cell shapes of
  row 0, with as many flags as gains, their number within the range of \<^verbatim>\<open>int\<close>), the
  exception is the length error "Cal table not expected shape (one row per ant)", and the
  caller's \<open>gain\<close> and \<open>flag\<close> vectors have by then been resized and overwritten with all
  gains and all flags of the table, whatever they held before.
\<close>

theorem readCalTable_mismatch:
  assumes "\<exists>r < length cal. ANTENNA1 (cal ! r) \<noteq> int r"
  shows "raised (readCalTable cal (gain, flag)) \<noteq> None
       \<and> (regular_table cal \<longrightarrow>
            readCalTable cal (gain, flag) =
              Raised (length_error one_row_msg)
                (concat (map (\<lambda>r. elems (CPARAM r)) cal),
                 map of_bool (concat (map (\<lambda>r. elems (FLAG r)) cal))))"
proof -
  from assms have chk: "antenna1_loop cal 0 = Some (length_error one_row_msg)"
    by (intro antenna1_loop_Some) simp
  then have "raised (readCalTable cal (gain, flag)) \<noteq> None"
    by (simp add: readCalTable_def Let_def split: sum.splits outcome.splits)
  moreover have "readCalTable cal (gain, flag) =
              Raised (length_error one_row_msg)
                (concat (map (\<lambda>r. elems (CPARAM r)) cal),
                 map of_bool (concat (map (\<lambda>r. elems (FLAG r)) cal)))"
    if "regular_table cal"
    using regular_read [OF that] chk by simp
  ultimately show ?thesis by simp
qed

theorem readCalTable_mismatch_witness:
  "(\<exists>r < length swapped_table. ANTENNA1 (swapped_table ! r) \<noteq> int r)
   \<and> regular_table swapped_table
   \<and> readCalTable swapped_table ([], []) = Raised (length_error one_row_msg) ([2, 3], [1, 0])"
proof -
  have mis: "\<exists>r < length swapped_table. ANTENNA1 (swapped_table ! r) \<noteq> int r"
    by (rule exI [of _ 0]) (simp add: swapped_table_def)
  have reg: "regular_table swapped_table"
    by (simp add: regular_table_def swapped_table_def INT_MAX_def)
  from readCalTable_mismatch [OF mis, of "[]" "[]"] reg
  have "readCalTable swapped_table ([], []) =
      Raised (length_error one_row_msg)
        (concat (map (\<lambda>r. elems (CPARAM r)) swapped_table),
         map of_bool (concat (map (\<lambda>r. elems (FLAG r)) swapped_table)))"
    by blast
  then have "readCalTable swapped_table ([], []) = Raised (length_error one_row_msg) ([2, 3], [1, 0])"
    by (simp add: swapped_table_def)
  with mis reg show ?thesis by blast
qed

text \<open>
  With the two rows of a table swapped, the call throws, and the vectors that held one
  element each before the call hold the two gains and the two flags of the table after it:
  they are not left as if the read had never started.
\<close>

theorem readCalTable_partial_counterexample:
  "ANTENNA1 (swapped_table ! 0) \<noteq> 0
   \<and> readCalTable swapped_table ([9], [7]) = Raised (length_error one_row_msg) ([2, 3], [1, 0])
   \<and> dest_of (readCalTable swapped_table ([9], [7])) \<noteq> ([9], [7])"
  by (simp add: readCalTable_def swapped_table_def shape0_def getColumn_into_def getColumn_def
        resize_def boolArray2charVector_def INT_MAX_def)

section \<open>Properties of the epoch parser\<close>

subsection \<open>Strings of the pattern are scanned\<close>

lemma digit_not_special:
  assumes "isdigit c"
  shows "\<not> isspace c" "c \<noteq> CHR ''-''" "c \<noteq> CHR ''+''" "c \<noteq> CHR ''.''"
    "tolower c = c" "c \<noteq> CHR ''x''" "c \<noteq> CHR ''i''" "c \<noteq> CHR ''n''"
  using assms by (auto simp add: isdigit_def isspace_def tolower_def)

lemma separators_not_digits:
  "\<not> isdigit (CHR ''-'')" "\<not> isdigit (CHR '':'')" "\<not> isdigit (CHR ''.'')"
  by (simp_all add: isdigit_def)

lemma takeWhile_run:
  "list_all P ds \<Longrightarrow> \<not> P c \<Longrightarrow> takeWhile P (ds @ c # r) = ds"
  by (induction ds) simp_all

lemma dropWhile_run:
  "list_all P ds \<Longrightarrow> \<not> P c \<Longrightarrow> dropWhile P (ds @ c # r) = c # r"
  by (induction ds) simp_all

lemma scan_d_digits:
  assumes "ds \<noteq> []" and "list_all isdigit ds" and "\<not> isdigit c"
  shows "\<exists>v. scan_d (ds @ c # r) = Some (v, c # r)"
proof -
  from assms(1) obtain d ds' where ds: "ds = d # ds'" by (cases ds) auto
  with assms(2) have d: "isdigit d" by simp
  from d have "skip_space (ds @ c # r) = ds @ c # r"
    by (simp add: skip_space_def ds digit_not_special)
  moreover from d have "scan_sign (ds @ c # r) = (False, ds @ c # r)"
    by (simp add: ds digit_not_special)
  ultimately show ?thesis using assms
    by (simp add: scan_d_def takeWhile_run dropWhile_run)
qed

lemma float_loop_extends:
  "\<exists>ext r. float_loop hex got_digit got_e got_dot buf s = (buf @ ext, r)"
proof (induction s arbitrary: got_digit got_e got_dot buf)
  case Nil
  then show ?case by simp
next
  case (Cons c s)
  have step: "\<exists>ext r. float_loop hex gd ge gdot (buf @ [x]) s = (buf @ ext, r)" for gd ge gdot x
  proof -
    from Cons.IH [of gd ge gdot "buf @ [x]"]
    obtain ext r where "float_loop hex gd ge gdot (buf @ [x]) s = ((buf @ [x]) @ ext, r)"
      by blast
    then have "float_loop hex gd ge gdot (buf @ [x]) s = (buf @ (x # ext), r)" by simp
    then show ?thesis by blast
  qed
  have stop: "\<exists>ext r. (buf, c # s) = (buf @ ext, r)"
    by (rule exI [of _ "[]"]) simp
  from step stop show ?case
    by (simp only: float_loop.simps split: if_split) blast
qed

lemma scan_lf_seconds:
  assumes "list_all isdigit ds" and "length ds = 2"
  shows "\<exists>v r. scan_lf (ds @ rest) = Some (Finite v, r)"
proof -
  from assms(2) obtain a b where ds: "ds = [a, b]"
    by (cases ds; cases "tl ds") auto
  with assms(1) have a: "isdigit a" and b: "isdigit b" by simp_all
  let ?s = "a # b # rest"
  from a have sk: "skip_space ?s = ?s"
    by (simp add: skip_space_def digit_not_special)
  from a have sg: "scan_sign ?s = (False, ?s)"
    by (simp add: digit_not_special)
  from a b have ag: "agree ''0x'' ?s \<noteq> 2" "agree ''i'' ?s \<noteq> 1" "agree ''n'' ?s \<noteq> 1"
    by (simp_all add: digit_not_special)
  from float_loop_extends [of False True False False "[a]" "b # rest"]
  obtain ext r where "float_loop False True False False [a] (b # rest) = ([a] @ ext, r)"
    by blast
  with a have fl: "float_loop False False False False [] ?s = (a # ext, r)"
    by simp
  from a have "strtod_value False (a # ext) \<noteq> None"
    by (simp add: strtod_value_def Let_def)
  then obtain v where "strtod_value False (a # ext) = Some v" by blast
  with ag fl have "scan_unsigned ?s = Some (Finite v, r)"
    by (simp add: scan_unsigned_def Let_def)
  then have "scan_lf ?s = Some (Finite v, r)"
    unfolding scan_lf_def sk sg by simp
  then show ?thesis by (auto simp add: ds)
qed

lemma split_field:
  "j \<le> i \<Longrightarrow> i < length t \<Longrightarrow> drop j t = take (i - j) (drop j t) @ t ! i # drop (Suc i) t"
proof -
  assume a: "j \<le> i" "i < length t"
  have "drop j t = take (i - j) (drop j t) @ drop (i - j) (drop j t)"
    by (simp only: append_take_drop_id)
  also from a have "drop (i - j) (drop j t) = drop i t" by simp
  also from a have "drop i t = t ! i # drop (Suc i) t" by (simp add: Cons_nth_drop_Suc)
  finally show ?thesis .
qed

lemma field_digits:
  "digits_at t j n \<Longrightarrow> j + n \<le> length t \<Longrightarrow> 0 < n \<Longrightarrow>
   list_all isdigit (take n (drop j t)) \<and> take n (drop j t) \<noteq> [] \<and> length (take n (drop j t)) = n"
  by (auto simp add: digits_at_def)

lemma conforms_scans:
  assumes "conforms t"
  shows "\<exists>v. sscanf_time t = Some v"
proof -
  from assms have len: "21 \<le> length t" by (simp add: conforms_def)
  from assms have seps: "t ! 4 = CHR ''-''" "t ! 7 = CHR ''-''" "t ! 10 = CHR ''-''"
      "t ! 13 = CHR '':''" "t ! 16 = CHR '':''" "t ! 19 = CHR ''.''"
    by (simp_all add: conforms_def)
  from assms have dg: "digits_at t 0 4" "digits_at t 5 2" "digits_at t 8 2" "digits_at t 11 2"
      "digits_at t 14 2" "digits_at t 17 2"
    by (simp_all add: conforms_def)
  have s0: "t = take 4 t @ CHR ''-'' # drop 5 t"
    using split_field [of 0 4 t] len seps by simp
  have s1: "drop 5 t = take 2 (drop 5 t) @ CHR ''-'' # drop 8 t"
    using split_field [of 5 7 t] len seps by simp
  have s2: "drop 8 t = take 2 (drop 8 t) @ CHR ''-'' # drop 11 t"
    using split_field [of 8 10 t] len seps by simp
  have s3: "drop 11 t = take 2 (drop 11 t) @ CHR '':'' # drop 14 t"
    using split_field [of 11 13 t] len seps by simp
  have s4: "drop 14 t = take 2 (drop 14 t) @ CHR '':'' # drop 17 t"
    using split_field [of 14 16 t] len seps by simp
  have "drop 17 t = take 2 (drop 17 t) @ drop 2 (drop 17 t)"
    by (simp only: append_take_drop_id)
  then have s5: "drop 17 t = take 2 (drop 17 t) @ drop 19 t"
    by simp
  obtain v0 where d0: "scan_d t = Some (v0, CHR ''-'' # drop 5 t)"
    using scan_d_digits [of "take 4 t" "CHR ''-''" "drop 5 t"] field_digits [OF dg(1)] len s0
    by (auto simp add: separators_not_digits)
  obtain v1 where d1: "scan_d (drop 5 t) = Some (v1, CHR ''-'' # drop 8 t)"
    using scan_d_digits [of "take 2 (drop 5 t)" "CHR ''-''" "drop 8 t"] field_digits [OF dg(2)] len s1
    by (auto simp add: separators_not_digits)
  obtain v2 where d2: "scan_d (drop 8 t) = Some (v2, CHR ''-'' # drop 11 t)"
    using scan_d_digits [of "take 2 (drop 8 t)" "CHR ''-''" "drop 11 t"] field_digits [OF dg(3)] len s2
    by (auto simp add: separators_not_digits)
  obtain v3 where d3: "scan_d (drop 11 t) = Some (v3, CHR '':'' # drop 14 t)"
    using scan_d_digits [of "take 2 (drop 11 t)" "CHR '':''" "drop 14 t"] field_digits [OF dg(4)] len s3
    by (auto simp add: separators_not_digits)
  obtain v4 where d4: "scan_d (drop 14 t) = Some (v4, CHR '':'' # drop 17 t)"
    using scan_d_digits [of "take 2 (drop 14 t)" "CHR '':''" "drop 17 t"] field_digits [OF dg(5)] len s4
    by (auto simp add: separators_not_digits)
  obtain ss r where d5: "scan_lf (drop 17 t) = Some (Finite ss, r)"
    using scan_lf_seconds [of "take 2 (drop 17 t)" "drop 19 t"] field_digits [OF dg(6)] len s5
    by auto
  show ?thesis
    by (simp add: sscanf_time_def d0 d1 d2 d3 d4 d5)
qed

lemma no_number_first:
  assumes "case skip_space t of [] \<Rightarrow> True
           | c # r \<Rightarrow> \<not> isdigit c \<and> c \<noteq> CHR ''-'' \<and> c \<noteq> CHR ''+''"
  shows "sscanf_time t = None"
proof -
  from assms have "scan_d t = None"
    by (cases "skip_space t") (simp_all add: scan_d_def)
  then show ?thesis by (simp add: sscanf_time_def)
qed

subsection \<open>Acceptance and rejection\<close>

lemmas scan_defs = sscanf_time_def scan_d_def scan_lf_def scan_unsigned_def strtod_value_def
  exponent_of_def exp_char_def strtol_value_def to_int_def skip_space_def isspace_def
  isdigit_def isxdigit_def digits_value_def digit_value_def tolower_def scale_def

lemma conforms_accepted:
  assumes "conforms t"
  shows "\<exists>e. str2MEpoch Time t offset = Inr e"
proof -
  from conforms_scans [OF assms] obtain v where "sscanf_time t = Some v" by blast
  then show ?thesis by (cases v) (simp add: str2MEpoch_def)
qed

text \<open>
  Claim C6, as the code has it. \<open>str2MEpoch\<close> throws the runtime error "Invalid String"
  exactly when the scan with \<^verbatim>\<open>%d-%d-%d-%d:%d:%lf\<close> converts fewer than six fields, and
  returns an epoch otherwise. Every string of the pattern \<^verbatim>\<open>YYYY-MM-DD-HH:MM:SS.s\<close> is
  accepted, and every string whose first character after white space is neither a digit
  nor a sign is rejected, the empty string too. The converse of the first does not hold:
  the scan also accepts strings that deviate from the pattern, as long as six numbers with
  the separators between them can be read.
\<close>

theorem str2MEpoch_parse:
  "(sscanf_time time = None \<longrightarrow> str2MEpoch Time time offset = Inl (runtime_error invalid_msg))
   \<and> (sscanf_time time \<noteq> None \<longrightarrow> (\<exists>e. str2MEpoch Time time offset = Inr e))
   \<and> (conforms time \<longrightarrow> (\<exists>e. str2MEpoch Time time offset = Inr e))
   \<and> ((case skip_space time of [] \<Rightarrow> True
        | c # r \<Rightarrow> \<not> isdigit c \<and> c \<noteq> CHR ''-'' \<and> c \<noteq> CHR ''+'') \<longrightarrow>
        str2MEpoch Time time offset = Inl (runtime_error invalid_msg))"
proof -
  have "\<exists>e. str2MEpoch Time time offset = Inr e" if "sscanf_time time \<noteq> None"
  proof -
    from that obtain v where "sscanf_time time = Some v" by blast
    then show ?thesis by (cases v) (simp add: str2MEpoch_def)
  qed
  moreover have thrown: "str2MEpoch Time time offset = Inl (runtime_error invalid_msg)"
    if "sscanf_time time = None"
    using that by (simp add: str2MEpoch_def)
  moreover have "str2MEpoch Time time offset = Inl (runtime_error invalid_msg)"
    if "case skip_space time of [] \<Rightarrow> True
        | c # r \<Rightarrow> \<not> isdigit c \<and> c \<noteq> CHR ''-'' \<and> c \<noteq> CHR ''+''"
    using no_number_first [OF that] by (rule thrown)
  ultimately show ?thesis using conforms_accepted [of time Time offset] by blast
qed

theorem str2MEpoch_parse_witness:
  "conforms ''2020-01-01-00:00:00.0''
   \<and> str2MEpoch example_Time ''2020-01-01-00:00:00.0'' 0 = Inr \<lparr>seconds = 64927180800, epoch_type = UTC\<rparr>
   \<and> sscanf_time ''2020-01-01-00:00'' = None
   \<and> str2MEpoch example_Time ''2020-01-01-00:00'' 0 = Inl (runtime_error invalid_msg)
   \<and> skip_space ''not-a-date'' = ''not-a-date''
   \<and> str2MEpoch example_Time ''not-a-date'' 0 = Inl (runtime_error invalid_msg)"
proof -
  have c: "conforms ''2020-01-01-00:00:00.0''"
    by (simp add: conforms_def digits_at_def isdigit_def)
  have n: "sscanf_time ''2020-01-01-00:00'' = None"
    by (simp add: scan_defs)
  have k: "skip_space ''not-a-date'' = ''not-a-date''"
    by (simp add: skip_space_def isspace_def)
  then have f: "case skip_space ''not-a-date'' of [] \<Rightarrow> True
        | c # r \<Rightarrow> \<not> isdigit c \<and> c \<noteq> CHR ''-'' \<and> c \<noteq> CHR ''+''"
    by (simp add: isdigit_def)
  from str2MEpoch_parse [of "''2020-01-01-00:00:00.0''" example_Time 0] c
  obtain e where e: "str2MEpoch example_Time ''2020-01-01-00:00:00.0'' 0 = Inr e" by blast
  have "sscanf_time ''2020-01-01-00:00:00.0'' = Some (2020, 1, 1, 0, 0, Finite 0)"
    by (simp add: scan_defs)
  then have v: "str2MEpoch example_Time ''2020-01-01-00:00:00.0'' 0
      = Inr \<lparr>seconds = 64927180800, epoch_type = UTC\<rparr>"
    by (simp add: str2MEpoch_def)
  from str2MEpoch_parse [of "''2020-01-01-00:00''" example_Time 0] n
  have a: "str2MEpoch example_Time ''2020-01-01-00:00'' 0 = Inl (runtime_error invalid_msg)"
    by blast
  from str2MEpoch_parse [of "''not-a-date''" example_Time 0] f
  have b: "str2MEpoch example_Time ''not-a-date'' 0 = Inl (runtime_error invalid_msg)"
    by blast
  from c n v e k a b show ?thesis by blast
qed

text \<open>
  Three strings outside the pattern that are accepted: one with text after the seconds, one
  with a leading blank, single digits and no fraction, one whose seconds end in an
  exponent marker.
\<close>

theorem str2MEpoch_lenient_counterexample:
  "\<not> conforms ''2020-01-01-00:00:07.25junk''
   \<and> str2MEpoch example_Time ''2020-01-01-00:00:07.25junk'' 0
       = Inr \<lparr>seconds = 259708723229 / 4, epoch_type = UTC\<rparr>
   \<and> \<not> conforms '' 1-2-3-4:5:6''
   \<and> str2MEpoch example_Time '' 1-2-3-4:5:6'' 0 = Inr \<lparr>seconds = 37771506, epoch_type = UTC\<rparr>
   \<and> \<not> conforms ''2020-01-01-00:00:1e''
   \<and> str2MEpoch example_Time ''2020-01-01-00:00:1e'' 0
       = Inr \<lparr>seconds = 64927180801, epoch_type = UTC\<rparr>"
proof -
  have "sscanf_time ''2020-01-01-00:00:07.25junk'' = Some (2020, 1, 1, 0, 0, Finite (29 / 4))"
    by (simp add: scan_defs)
  then have a: "str2MEpoch example_Time ''2020-01-01-00:00:07.25junk'' 0
       = Inr \<lparr>seconds = 259708723229 / 4, epoch_type = UTC\<rparr>"
    by (simp add: str2MEpoch_def)
  have "sscanf_time '' 1-2-3-4:5:6'' = Some (1, 2, 3, 4, 5, Finite 6)"
    by (simp add: scan_defs)
  then have b: "str2MEpoch example_Time '' 1-2-3-4:5:6'' 0
       = Inr \<lparr>seconds = 37771506, epoch_type = UTC\<rparr>"
    by (simp add: str2MEpoch_def)
  have "sscanf_time ''2020-01-01-00:00:1e'' = Some (2020, 1, 1, 0, 0, Finite 1)"
    by (simp add: scan_defs)
  then have d: "str2MEpoch example_Time ''2020-01-01-00:00:1e'' 0
       = Inr \<lparr>seconds = 64927180801, epoch_type = UTC\<rparr>"
    by (simp add: str2MEpoch_def)
  have c: "\<not> conforms ''2020-01-01-00:00:07.25junk''" "\<not> conforms '' 1-2-3-4:5:6''"
      "\<not> conforms ''2020-01-01-00:00:1e''"
    by (simp_all add: conforms_def digits_at_def isdigit_def)
  from a b c d show ?thesis by blast
qed

subsection \<open>The offset\<close>

text \<open>
  Claim C7. Every string of the pattern is parsed with offset 0, and for every string \<open>t\<close>
  that is parsed with offset 0 and every offset \<open>d\<close>, the epoch of \<open>t\<close> with offset \<open>d\<close>
  is the epoch of \<open>t\<close> with offset 0 moved by exactly \<open>d\<close> seconds, with the same
  reference; with offset 3600 it is one hour later.
\<close>

theorem offset_shifts_epoch:
  "(conforms t \<longrightarrow> (\<exists>e0. str2MEpoch Time t 0 = Inr e0))
   \<and> (\<forall>e0. str2MEpoch Time t 0 = Inr e0 \<longrightarrow>
         str2MEpoch Time t d = Inr \<lparr>seconds = seconds e0 + d, epoch_type = epoch_type e0\<rparr>
       \<and> str2MEpoch Time t 3600 = Inr \<lparr>seconds = seconds e0 + 3600, epoch_type = epoch_type e0\<rparr>)"
proof -
  have shift: "str2MEpoch Time t x = Inr \<lparr>seconds = seconds e0 + x, epoch_type = epoch_type e0\<rparr>"
    if "str2MEpoch Time t 0 = Inr e0" for e0 x
  proof (cases "sscanf_time t")
    case None
    with that show ?thesis by (simp add: str2MEpoch_def)
  next
    case (Some v)
    with that show ?thesis by (cases v) (auto simp add: str2MEpoch_def)
  qed
  with conforms_accepted [of t Time 0] show ?thesis by blast
qed

theorem offset_shifts_epoch_witness:
  "conforms ''2020-01-01-00:00:00.0''
   \<and> str2MEpoch example_Time ''2020-01-01-00:00:00.0'' 0
       = Inr \<lparr>seconds = 64927180800, epoch_type = UTC\<rparr>
   \<and> str2MEpoch example_Time ''2020-01-01-00:00:00.0'' 3600
       = Inr \<lparr>seconds = 64927180800 + 3600, epoch_type = UTC\<rparr>"
proof -
  have c: "conforms ''2020-01-01-00:00:00.0''"
    by (simp add: conforms_def digits_at_def isdigit_def)
  have "sscanf_time ''2020-01-01-00:00:00.0'' = Some (2020, 1, 1, 0, 0, Finite 0)"
    by (simp add: scan_defs)
  then have z: "str2MEpoch example_Time ''2020-01-01-00:00:00.0'' 0
      = Inr \<lparr>seconds = 64927180800, epoch_type = UTC\<rparr>"
    by (simp add: str2MEpoch_def)
  from offset_shifts_epoch [of "''2020-01-01-00:00:00.0''" example_Time 3600] z
  have "str2MEpoch example_Time ''2020-01-01-00:00:00.0'' 3600
       = Inr \<lparr>seconds = 64927180800 + 3600, epoch_type = UTC\<rparr>"
    by simp
  with c z show ?thesis by blast
qed

end
